theory Spec2Isabelle
  imports Complex_Main "HOL-Library.Multiset" "HOL-Library.Sublist"
begin

section \<open>The serial driver (dexarm\_tests/dexarm.py)\<close>

text \<open>
  Python floats are modelled as reals. What depends on how a double rounds is therefore
  outside this model; the inputs evaluated below are chosen so that every value a theorem
  names is computed exactly by the program too. A command written to the serial port is
  kept structured instead of as its formatted text:
  \<open>G0 x y z f\<close> is the line \<^verbatim>\<open>G0 X{x} Y{y} Z{z} F{f}\<close>.
\<close>

datatype gcode =
    G0 real real real real
  | G1 real real real real
  | G28
  | G90
  | G91
  | M17
  | M84
  | M114

text \<open>
  What one iteration of the reply loop of \<open>send_gcode\<close> observes: nothing waiting
  (\<open>Idle\<close>, the loop sleeps), a line read, decoded and stripped (\<open>Line\<close>), a
  \<open>readline\<close> that raises inside the inner \<^verbatim>\<open>try\<close> (\<open>Garbled\<close>), or a
  failure of the port itself, which the outer \<^verbatim>\<open>except Exception\<close> catches
  (\<open>PortError\<close>). Each observation is paired with the seconds elapsed since the loop began,
  the value the loop compares with \<open>timeout\<close>.
\<close>

datatype event = Idle | Line string | Garbled | PortError

text \<open>What \<open>serial.write\<close> followed by \<open>flush\<close> does with one command.\<close>

datatype reply =
    SerialTimeout
  | SerialFault
  | Sent "(real \<times> event) list"

datatype error =
    NotConnected
  | LinkClosed
  | WriteTimeout gcode
  | SendFailed gcode
  | HomingTimeout real

text \<open>
  \<open>NotConnected\<close> is \<^verbatim>\<open>RuntimeError("DexArm not connected")\<close>, \<open>LinkClosed\<close> is
  \<^verbatim>\<open>ConnectionError("Not connected to DexArm")\<close>, \<open>WriteTimeout\<close> is
  \<^verbatim>\<open>TimeoutError("Write timeout sending command: ...")\<close>, \<open>SendFailed\<close> is
  \<^verbatim>\<open>RuntimeError("Error sending command ...")\<close> and \<open>HomingTimeout t\<close> is
  \<^verbatim>\<open>TimeoutError("Homing timed out after {t} seconds. The arm may be stuck or unpowered.")\<close>.
\<close>

fun is_TimeoutError :: "error \<Rightarrow> bool" where
  "is_TimeoutError (WriteTimeout c) = True"
| "is_TimeoutError (HomingTimeout t) = True"
| "is_TimeoutError e = False"

type_synonym position = "real \<times> real \<times> real"

text \<open>
  The \<open>Dexarm\<close> object. \<open>is_open\<close> is \<^verbatim>\<open>self.serial and self.serial.is_open\<close>,
  \<open>tx\<close> the commands written so far. The device is the environment: \<open>respond\<close> says,
  from the commands already written, what happens to the next write and what the reply loop
  then observes; \<open>report\<close> is the outcome of the \<^verbatim>\<open>M114\<close> exchange of
  \<open>Dexarm.get_position\<close>, a position or \<open>None\<close>.
\<close>

record dexarm =
  is_open :: bool
  tx :: "gcode list"
  respond :: "gcode list \<Rightarrow> gcode \<Rightarrow> reply"
  report :: "gcode list \<Rightarrow> position option"

fun join_lines :: "string list \<Rightarrow> string" where
  "join_lines [] = []"
| "join_lines [l] = l"
| "join_lines (l # ls) = l @ [CHR 0x0A] @ join_lines ls"

text \<open>
  The reply loop of \<open>send_gcode\<close>: it runs while the elapsed time is below \<open>timeout\<close>,
  returns as soon as a line equal to \<^verbatim>\<open>ok\<close> was read, and when the time is up returns
  what it has, without raising.
\<close>

fun wait_response :: "real \<Rightarrow> (real \<times> event) list \<Rightarrow> string list \<Rightarrow> string option" where
  "wait_response timeout [] response_lines = Some (join_lines response_lines)"
| "wait_response timeout ((elapsed, ev) # rest) response_lines =
     (if elapsed < timeout then
        (case ev of
           Idle \<Rightarrow> wait_response timeout rest response_lines
         | Garbled \<Rightarrow> wait_response timeout rest response_lines
         | PortError \<Rightarrow> None
         | Line l \<Rightarrow>
             (if l \<noteq> [] then
                (if l = ''ok'' then Some (join_lines (response_lines @ [l]))
                 else wait_response timeout rest (response_lines @ [l]))
              else wait_response timeout rest response_lines))
      else Some (join_lines response_lines))"

text \<open>
  \<open>send_gcode\<close>. A \<open>gcode\<close> is never the empty string, so the early return on an empty
  command has no branch here. The state is returned also when the call raises: what was
  written stays written.
\<close>

definition send_gcode :: "dexarm \<Rightarrow> gcode \<Rightarrow> bool \<Rightarrow> real \<Rightarrow> (error + string) \<times> dexarm" where
  "send_gcode d command wait_ok timeout =
     (if \<not> is_open d then (Inl LinkClosed, d)
      else
        (case respond d (tx d) command of
           SerialTimeout \<Rightarrow> (Inl (WriteTimeout command), d)
         | SerialFault \<Rightarrow> (Inl (SendFailed command), d)
         | Sent evs \<Rightarrow>
             (let d' = d\<lparr>tx := tx d @ [command]\<rparr> in
              if wait_ok then
                (case wait_response timeout evs [] of
                   None \<Rightarrow> (Inl (SendFailed command), d')
                 | Some r \<Rightarrow> (Inr r, d'))
              else (Inr [], d'))))"

text \<open>
  \<open>Dexarm.get_position\<close> writes \<^verbatim>\<open>M114\<close>, reads for at most a second and parses the
  reply; every exception is caught and gives \<open>None\<close>. It is modelled by its outcome.
\<close>

definition get_position :: "dexarm \<Rightarrow> position option \<times> dexarm" where
  "get_position d =
     (if \<not> is_open d then (None, d)
      else (report d (tx d), d\<lparr>tx := tx d @ [M114]\<rparr>))"

definition go_home :: "dexarm \<Rightarrow> real \<Rightarrow> (error + unit) \<times> dexarm" where
  "go_home d timeout =
     (case send_gcode d G28 True timeout of
        (Inl e, d1) \<Rightarrow> (Inl e, d1)
      | (Inr r, d1) \<Rightarrow> (case get_position d1 of (pos, d2) \<Rightarrow> (Inr (), d2)))"

definition fast_move_to :: "dexarm \<Rightarrow> real \<Rightarrow> real \<Rightarrow> real \<Rightarrow> real \<Rightarrow> (error + unit) \<times> dexarm" where
  "fast_move_to d x y z feedrate =
     (case send_gcode d (G0 x y z feedrate) True 10 of
        (Inl e, d1) \<Rightarrow> (Inl e, d1)
      | (Inr r, d1) \<Rightarrow> (Inr (), d1))"

section \<open>The controller (dexarm\_controller.py)\<close>

record controller =
  is_connected :: bool
  dexarm :: "dexarm option"

definition put_dexarm :: "controller \<Rightarrow> dexarm \<Rightarrow> controller" where
  "put_dexarm c d = c\<lparr>dexarm := Some d\<rparr>"

definition home :: "controller \<Rightarrow> real \<Rightarrow> (error + unit) \<times> controller" where
  "home c timeout =
     (case dexarm c of
        None \<Rightarrow> (Inl NotConnected, c)
      | Some d \<Rightarrow>
          if \<not> is_connected c then (Inl NotConnected, c)
          else
            (case go_home d timeout of
               (Inl e, d1) \<Rightarrow>
                 (if is_TimeoutError e then (Inl (HomingTimeout timeout), put_dexarm c d1)
                  else (Inl e, put_dexarm c d1))
             | (Inr u, d1) \<Rightarrow> (Inr (), put_dexarm c d1)))"

text \<open>
  \<open>DexArmController.get_position\<close>: raises when not connected; otherwise the driver's
  answer, with any exception turned into \<open>None\<close>.
\<close>

definition ctrl_get_position :: "controller \<Rightarrow> (error + position option) \<times> controller" where
  "ctrl_get_position c =
     (case dexarm c of
        None \<Rightarrow> (Inl NotConnected, c)
      | Some d \<Rightarrow>
          if \<not> is_connected c then (Inl NotConnected, c)
          else (case get_position d of (pos, d1) \<Rightarrow> (Inr pos, put_dexarm c d1)))"

text \<open>
  The part of \<open>move_to_safe\<close> after \<open>current_z\<close> is known (lines 164 to 185). The lifting
  branch passes \<open>current_z\<close> as the X and as the Y of its first move, as the source does.
\<close>

definition planned_move ::
  "controller \<Rightarrow> dexarm \<Rightarrow> real \<Rightarrow> real \<Rightarrow> real \<Rightarrow> real \<Rightarrow> real \<Rightarrow> (error + real) \<times> controller" where
  "planned_move c d x y z feedrate current_z =
     (let z_diff = z - current_z in
      if \<bar>z_diff\<bar> < 0.5 then
        (case fast_move_to d x y z feedrate of
           (Inl e, d1) \<Rightarrow> (Inl e, put_dexarm c d1)
         | (Inr u, d1) \<Rightarrow> (Inr z, put_dexarm c d1))
      else if z_diff > 0 then
        (case fast_move_to d current_z current_z z 10000 of
           (Inl e, d1) \<Rightarrow> (Inl e, put_dexarm c d1)
         | (Inr u, d1) \<Rightarrow>
             (case fast_move_to d1 x y z 10000 of
                (Inl e, d2) \<Rightarrow> (Inl e, put_dexarm c d2)
              | (Inr u, d2) \<Rightarrow> (Inr z, put_dexarm c d2)))
      else
        (case fast_move_to d x y current_z 10000 of
           (Inl e, d1) \<Rightarrow> (Inl e, put_dexarm c d1)
         | (Inr u, d1) \<Rightarrow>
             (case fast_move_to d1 x y z feedrate of
                (Inl e, d2) \<Rightarrow> (Inl e, put_dexarm c d2)
              | (Inr u, d2) \<Rightarrow> (Inr z, put_dexarm c d2))))"

definition move_to_safe ::
  "controller \<Rightarrow> real \<Rightarrow> real \<Rightarrow> real \<Rightarrow> real \<Rightarrow> real option \<Rightarrow> (error + real) \<times> controller" where
  "move_to_safe c x y z feedrate current_z =
     (case dexarm c of
        None \<Rightarrow> (Inl NotConnected, c)
      | Some d \<Rightarrow>
          if \<not> is_connected c then (Inl NotConnected, c)
          else
            (case current_z of
               Some cz \<Rightarrow> planned_move c d x y z feedrate cz
             | None \<Rightarrow>
                 (case ctrl_get_position c of
                    (Inl e, c1) \<Rightarrow> (Inl e, c1)
                  | (Inr (Some (px, py, pz)), c1) \<Rightarrow>
                      (case dexarm c1 of
                         None \<Rightarrow> (Inl NotConnected, c1)
                       | Some d1 \<Rightarrow> planned_move c1 d1 x y z feedrate pz)
                  | (Inr None, c1) \<Rightarrow>
                      (case dexarm c1 of
                         None \<Rightarrow> (Inl NotConnected, c1)
                       | Some d1 \<Rightarrow>
                           (case fast_move_to d1 x y z feedrate of
                              (Inl e, d2) \<Rightarrow> (Inl e, put_dexarm c1 d2)
                            | (Inr u, d2) \<Rightarrow> (Inr z, put_dexarm c1 d2))))))"

text \<open>What the controller has written to the device so far.\<close>

definition sent :: "controller \<Rightarrow> gcode list" where
  "sent c = (case dexarm c of None \<Rightarrow> [] | Some d \<Rightarrow> tx d)"

definition emitted :: "controller \<Rightarrow> controller \<Rightarrow> gcode list" where
  "emitted c c' = drop (length (sent c)) (sent c')"

subsection \<open>Lateral travel and the height it happens at\<close>

fun move_target :: "gcode \<Rightarrow> position option" where
  "move_target (G0 x y z f) = Some (x, y, z)"
| "move_target (G1 x y z f) = Some (x, y, z)"
| "move_target g = None"

definition moves_of :: "gcode list \<Rightarrow> gcode list" where
  "moves_of gs = filter (\<lambda>g. move_target g \<noteq> None) gs"

text \<open>The XY of the last move in a log of commands: where the arm was last sent.\<close>

fun held_xy :: "gcode list \<Rightarrow> (real \<times> real) option" where
  "held_xy [] = None"
| "held_xy (g # gs) =
     (case held_xy gs of
        Some p \<Rightarrow> Some p
      | None \<Rightarrow> (case move_target g of Some (x, y, z) \<Rightarrow> Some (x, y) | None \<Rightarrow> None))"

text \<open>
  A move takes the arm in a straight line from the pose it holds to its target, so while
  it runs the Z of the tool lies between the Z held and the Z commanded.
  \<open>no_low_lateral pxy held_z prevZ targetZ gs\<close>: every move of \<open>gs\<close> either keeps the XY
  held before it (\<open>pxy\<close> for the first one), or runs entirely at a Z that is not below
  \<open>max prevZ targetZ - 0.5\<close>: both the Z held when it starts (\<open>held_z\<close> for the first one)
  and the Z it is commanded to are at least that high.
\<close>

fun no_low_lateral ::
  "(real \<times> real) option \<Rightarrow> real \<Rightarrow> real \<Rightarrow> real \<Rightarrow> gcode list \<Rightarrow> bool" where
  "no_low_lateral pxy held_z prevZ targetZ [] = True"
| "no_low_lateral pxy held_z prevZ targetZ (g # gs) =
     (case move_target g of
        None \<Rightarrow> no_low_lateral pxy held_z prevZ targetZ gs
      | Some (x, y, z) \<Rightarrow>
          (pxy = Some (x, y) \<or> max prevZ targetZ - 0.5 \<le> min held_z z)
          \<and> no_low_lateral (Some (x, y)) z prevZ targetZ gs)"

text \<open>
  A sequence of targets \<open>(x, y, z, feedrate)\<close> threaded through \<open>move_to_safe\<close> as the
  drawing loop of app.py does, each call receiving the Z the previous one returned, which
  is the Z the arm holds; \<open>safe_run\<close> checks \<open>no_low_lateral\<close> on what every call sends,
  up to the first call that raises.
\<close>

fun safe_run :: "controller \<Rightarrow> (real \<times> real \<times> real \<times> real) list \<Rightarrow> real \<Rightarrow> bool" where
  "safe_run c [] current_z = True"
| "safe_run c ((x, y, z, feedrate) # targets) current_z =
     (case move_to_safe c x y z feedrate (Some current_z) of
        (r, c') \<Rightarrow>
          no_low_lateral (held_xy (sent c)) current_z current_z z (emitted c c')
          \<and> (case r of Inl e \<Rightarrow> True | Inr new_z \<Rightarrow> safe_run c' targets new_z))"

subsection \<open>Concrete devices\<close>

text \<open>
  A connected arm that was last sent to \<open>(100, 50, 0)\<close>, acknowledges every command after
  10 ms and whose position report cannot be read.
\<close>

definition arm_at_100_50 :: controller where
  "arm_at_100_50 =
     \<lparr>is_connected = True,
      dexarm = Some \<lparr>is_open = True, tx = [G0 100 50 0 2000],
                     respond = (\<lambda>h g. Sent [(0.01, Line ''ok'')]),
                     report = (\<lambda>h. None)\<rparr>\<rparr>"


text \<open>
  A connected arm that never acknowledges: 30 seconds after a command it has only sent
  two busy notices.
\<close>

definition unresponsive_arm :: controller where
  "unresponsive_arm =
     \<lparr>is_connected = True,
      dexarm = Some \<lparr>is_open = True, tx = [G90],
                     respond = (\<lambda>h g. Sent [(10, Line ''echo:busy: processing''),
                                              (20, Line ''echo:busy: processing''),
                                              (30, Idle)]),
                     report = (\<lambda>h. None)\<rparr>\<rparr>"

section \<open>The calibrated drawing area (dexarm\_controller.py)\<close>

text \<open>
  The dictionary \<open>get_drawing_area\<close> returns. Its key \<^verbatim>\<open>z_draw\<close> is optional for
  \<open>convert_to_drawing_commands\<close>, hence an option.
\<close>

record drawing_area =
  area_width :: real
  area_height :: real
  x_min :: real
  y_min :: real
  x_max :: real
  y_max :: real
  area_z_draw :: "real option"

section \<open>The command generator (svg\_parser.py)\<close>

type_synonym point = "real \<times> real"

text \<open>
  The segments of a parsed path. They are objects of the svg.path library: a straight
  segment is given by its \<open>end\<close>, a curve by its \<open>point\<close> method, which maps a parameter
  in \<open>[0, 1]\<close> to a point and is left arbitrary.
\<close>

datatype segment =
    Move point
  | Line point
  | Close point
  | CubicBezier "real \<Rightarrow> point"
  | QuadraticBezier "real \<Rightarrow> point"
  | Arc "real \<Rightarrow> point"

type_synonym path = "segment list"

record svg_parser =
  paths :: "path list"
  width :: "real option"
  height :: "real option"

datatype cmd_type = move | draw

record command =
  cmd_kind :: cmd_type
  cmd_x :: real
  cmd_y :: real
  cmd_z :: real
  cmd_feedrate :: real

definition transform_point :: "real \<Rightarrow> real \<Rightarrow> real \<Rightarrow> real \<Rightarrow> real \<Rightarrow> point" where
  "transform_point svg_x svg_y scale offset_x offset_y =
     (svg_x * scale + offset_x, svg_y * scale + offset_y)"

definition is_in_bounds :: "real \<Rightarrow> real \<Rightarrow> drawing_area \<Rightarrow> bool" where
  "is_in_bounds x y a = (x_min a \<le> x \<and> x \<le> x_max a \<and> y_min a \<le> y \<and> y \<le> y_max a)"

text \<open>Python's \<^verbatim>\<open>self.width or 100\<close>: 100 when the value is \<open>None\<close> or zero.\<close>

definition or_100 :: "real option \<Rightarrow> real" where
  "or_100 v = (case v of None \<Rightarrow> 100 | Some w \<Rightarrow> if w = 0 then 100 else w)"

record mapping =
  scale :: real
  offset_x :: real
  offset_y :: real

text \<open>
  Lines 172 to 188: the scale that fills the area and the centring offsets, here in real
  arithmetic. The program computes them in doubles, so what it maps to can differ from the
  values below by rounding.
\<close>

definition fit_to_area :: "svg_parser \<Rightarrow> drawing_area \<Rightarrow> mapping" where
  "fit_to_area p a =
     (let svg_width = or_100 (width p);
          svg_height = or_100 (height p);
          scale_x = area_width a / svg_width;
          scale_y = area_height a / svg_height;
          sc = max scale_x scale_y;
          scaled_width = svg_width * sc;
          scaled_height = svg_height * sc
      in \<lparr>scale = sc,
          offset_x = x_min a + (area_width a - scaled_width) / 2,
          offset_y = y_min a + (area_height a - scaled_height) / 2\<rparr>)"

text \<open>The local variables the loop over the paths reads.\<close>

record pen =
  pen_map :: mapping
  pen_area :: drawing_area
  pen_z_draw :: real
  pen_z_up :: real
  pen_down_feedrate :: real
  pen_up_feedrate :: real

text \<open>Lines 164 to 168 and the mapping: \<open>z_draw\<close> of the area wins over the argument.\<close>

definition drawing_pen ::
  "svg_parser \<Rightarrow> drawing_area \<Rightarrow> real \<Rightarrow> real \<Rightarrow> real \<Rightarrow> real \<Rightarrow> pen" where
  "drawing_pen p a z_draw z_up pen_down pen_up =
     (let zd = (case area_z_draw a of Some v \<Rightarrow> v | None \<Rightarrow> z_draw);
          z_up_actual = zd + z_up
      in \<lparr>pen_map = fit_to_area p a, pen_area = a, pen_z_draw = zd, pen_z_up = z_up_actual,
          pen_down_feedrate = pen_down, pen_up_feedrate = pen_up\<rparr>)"

definition to_machine :: "pen \<Rightarrow> point \<Rightarrow> point" where
  "to_machine k p =
     transform_point (fst p) (snd p) (scale (pen_map k)) (offset_x (pen_map k))
       (offset_y (pen_map k))"

definition move_cmd :: "pen \<Rightarrow> point \<Rightarrow> command" where
  "move_cmd k q =
     \<lparr>cmd_kind = move, cmd_x = fst q, cmd_y = snd q, cmd_z = pen_z_up k,
      cmd_feedrate = pen_up_feedrate k\<rparr>"

definition draw_cmd :: "pen \<Rightarrow> point \<Rightarrow> command" where
  "draw_cmd k q =
     \<lparr>cmd_kind = draw, cmd_x = fst q, cmd_y = snd q, cmd_z = pen_z_draw k,
      cmd_feedrate = pen_down_feedrate k\<rparr>"

definition num_samples :: nat where
  "num_samples = 20"

text \<open>
  One iteration of the sampling loop of a curve (lines 261 to 291); the state is the
  command list and the flag \<open>first_point\<close>. No bounds test is made here.
\<close>

definition sample_curve ::
  "pen \<Rightarrow> (real \<Rightarrow> point) \<Rightarrow> command list \<times> bool \<Rightarrow> nat \<Rightarrow> command list \<times> bool" where
  "sample_curve k point st i =
     (case st of (cmds, first_point) \<Rightarrow>
        (let t = real i / real num_samples;
             q = to_machine k (point t)
         in if first_point \<and> i = 0 then (cmds @ [move_cmd k q, draw_cmd k q], False)
            else (cmds @ [draw_cmd k q], first_point)))"

text \<open>The body of the loop over the segments of one path (lines 209 to 291).\<close>

fun process_segment :: "pen \<Rightarrow> command list \<times> bool \<Rightarrow> segment \<Rightarrow> command list \<times> bool" where
  "process_segment k (cmds, first_point) (Move e) =
     (cmds @ [move_cmd k (to_machine k e)], False)"
| "process_segment k (cmds, first_point) (Line e) =
     (let q = to_machine k e in
      if \<not> is_in_bounds (fst q) (snd q) (pen_area k) then (cmds, first_point)
      else if first_point then (cmds @ [move_cmd k q, draw_cmd k q], False)
      else (cmds @ [draw_cmd k q], first_point))"
| "process_segment k (cmds, first_point) (Close e) =
     (let q = to_machine k e in
      if \<not> is_in_bounds (fst q) (snd q) (pen_area k) then (cmds, first_point)
      else if first_point then (cmds @ [move_cmd k q, draw_cmd k q], False)
      else (cmds @ [draw_cmd k q], first_point))"
| "process_segment k st (CubicBezier point) =
     foldl (sample_curve k point) st [0..<num_samples + 1]"
| "process_segment k st (QuadraticBezier point) =
     foldl (sample_curve k point) st [0..<num_samples + 1]"
| "process_segment k st (Arc point) =
     foldl (sample_curve k point) st [0..<num_samples + 1]"

text \<open>Lines 293 to 302: the pen is lifted where the last command left it.\<close>

definition lift_pen :: "pen \<Rightarrow> command list \<Rightarrow> command list" where
  "lift_pen k cmds =
     (if cmds \<noteq> [] then
        cmds @ [\<lparr>cmd_kind = move, cmd_x = cmd_x (last cmds), cmd_y = cmd_y (last cmds),
                  cmd_z = pen_z_up k, cmd_feedrate = pen_up_feedrate k\<rparr>]
      else cmds)"

definition process_path :: "pen \<Rightarrow> command list \<Rightarrow> path \<Rightarrow> command list" where
  "process_path k cmds path = lift_pen k (fst (foldl (process_segment k) (cmds, True) path))"

text \<open>
  What the generator produces: the command list it returns, the \<open>path_count\<close> it prints
  and, when the limit stopped it, the number of remaining paths it reports as skipped.
\<close>

record generated =
  commands :: "command list"
  path_count :: nat
  skipped :: "int option"

text \<open>The loop over the paths (lines 196 to 302); \<open>n_paths\<close> is \<^verbatim>\<open>len(self.paths)\<close>.\<close>

fun process_paths ::
  "pen \<Rightarrow> int \<Rightarrow> nat \<Rightarrow> path list \<Rightarrow> command list \<Rightarrow> nat \<Rightarrow> generated" where
  "process_paths k max_commands n_paths [] cmds cnt =
     \<lparr>commands = cmds, path_count = cnt, skipped = None\<rparr>"
| "process_paths k max_commands n_paths (path # rest) cmds cnt =
     (if int (length cmds) \<ge> max_commands then
        \<lparr>commands = cmds, path_count = cnt, skipped = Some (int n_paths - int cnt)\<rparr>
      else process_paths k max_commands n_paths rest (process_path k cmds path) (cnt + 1))"

definition convert_to_drawing_commands ::
  "svg_parser \<Rightarrow> drawing_area \<Rightarrow> real \<Rightarrow> real \<Rightarrow> real \<Rightarrow> real \<Rightarrow> int \<Rightarrow> generated" where
  "convert_to_drawing_commands p a z_draw z_up pen_down pen_up max_commands =
     (if paths p = [] then \<lparr>commands = [], path_count = 0, skipped = None\<rparr>
      else process_paths (drawing_pen p a z_draw z_up pen_down pen_up) max_commands
             (length (paths p)) (paths p) [] 0)"

subsection \<open>Concrete drawings\<close>

text \<open>A 100 by 100 area at the origin: a 100 by 100 drawing maps to it unchanged.\<close>

definition square_area :: drawing_area where
  "square_area =
     \<lparr>area_width = 100, area_height = 100, x_min = 0, y_min = 0, x_max = 100, y_max = 100,
      area_z_draw = Some 0\<rparr>"

text \<open>The path \<^verbatim>\<open>M 0,0 L 10,10\<close>.\<close>

definition one_line :: svg_parser where
  "one_line = \<lparr>paths = [[Move (0, 0), Line (10, 10)]], width = Some 100, height = Some 100\<rparr>"

text \<open>A path whose curve runs from \<open>(0, 50)\<close> to \<open>(500, 50)\<close>, far beyond the area.\<close>

definition escaping_curve :: svg_parser where
  "escaping_curve =
     \<lparr>paths = [[Move (0, 50), CubicBezier (\<lambda>t. (500 * t, 50))]],
      width = Some 100, height = Some 100\<rparr>"

section \<open>The path-order optimizer (svg\_plotter\_methods.py, svg\_clean\_centerline.py)\<close>

text \<open>
  \<open>_optimize_path_order\<close> has the same text in both files. A polyline is a list of points;
  indexing an empty one raises \<open>IndexError\<close>.
\<close>

datatype py_error = IndexError

type_synonym polyline = "point list"

definition point_distance :: "point \<Rightarrow> point \<Rightarrow> real" where
  "point_distance p1 p2 = sqrt ((fst p1 - fst p2)\<^sup>2 + (snd p1 - snd p2)\<^sup>2)"

text \<open>
  The three variables of the search for the nearest polyline. \<open>min_dist = None\<close> is
  \<^verbatim>\<open>float('inf')\<close>, below which every distance lies.
\<close>

record best =
  min_dist :: "real option"
  best_idx :: nat
  best_reverse :: bool

definition below :: "real \<Rightarrow> real option \<Rightarrow> bool" where
  "below d m = (case m of None \<Rightarrow> True | Some v \<Rightarrow> d < v)"

text \<open>
  The test made twice for each polyline: a distance strictly below \<open>min_dist\<close> replaces
  the three variables.
\<close>

definition candidate :: "real \<Rightarrow> nat \<Rightarrow> bool \<Rightarrow> best \<Rightarrow> best" where
  "candidate d idx reverse b =
     (if below d (min_dist b)
      then \<lparr>min_dist = Some d, best_idx = idx, best_reverse = reverse\<rparr>
      else b)"

text \<open>The loop over \<^verbatim>\<open>enumerate(remaining)\<close>.\<close>

fun find_nearest :: "point \<Rightarrow> (nat \<times> polyline) list \<Rightarrow> best \<Rightarrow> py_error + best" where
  "find_nearest current_end [] b = Inr b"
| "find_nearest current_end ((idx, poly) # rest) b =
     (if poly = [] then Inl IndexError
      else
        (let dist_start = point_distance current_end (hd poly);
             b1 = candidate dist_start idx False b;
             dist_end = point_distance current_end (last poly);
             b2 = candidate dist_end idx True b1
         in find_nearest current_end rest b2))"

text \<open>\<^verbatim>\<open>xs.pop(i)\<close>: the element and the list without it.\<close>

definition pop :: "'a list \<Rightarrow> nat \<Rightarrow> py_error + ('a \<times> 'a list)" where
  "pop xs i =
     (if i < length xs then Inr (xs ! i, take i xs @ drop (Suc i) xs) else Inl IndexError)"

text \<open>The \<^verbatim>\<open>while remaining\<close> loop.\<close>

function greedy_loop ::
  "polyline list \<Rightarrow> polyline list \<Rightarrow> point \<Rightarrow> py_error + polyline list" where
  "greedy_loop ordered [] current_end = Inr ordered"
| "greedy_loop ordered (r # rs) current_end =
     (case find_nearest current_end (enumerate 0 (r # rs))
             \<lparr>min_dist = None, best_idx = 0, best_reverse = False\<rparr> of
        Inl e \<Rightarrow> Inl e
      | Inr b \<Rightarrow>
          (case pop (r # rs) (best_idx b) of
             Inl e \<Rightarrow> Inl e
           | Inr (popped, remaining) \<Rightarrow>
               (let next_poly = (if best_reverse b then rev popped else popped) in
                if next_poly = [] then Inl IndexError
                else greedy_loop (ordered @ [next_poly]) remaining (last next_poly))))"
  by pat_completeness auto
termination
  by (relation "measure (\<lambda>(ordered, remaining, current_end). length remaining)")
     (auto simp: pop_def split: if_splits)

definition optimize_path_order :: "polyline list \<Rightarrow> py_error + polyline list" where
  "optimize_path_order polylines =
     (case polylines of
        [] \<Rightarrow> Inr []
      | current # remaining \<Rightarrow>
          if current = [] then Inl IndexError
          else greedy_loop [current] remaining (last current))"

subsection \<open>Orderings and their travel\<close>

text \<open>A polyline up to the direction in which it is drawn.\<close>

definition orientations :: "polyline \<Rightarrow> polyline set" where
  "orientations p = {p, rev p}"

text \<open>
  The total pen-up travel of an ordering: from the end of each polyline to the start of
  the next.
\<close>

fun travel :: "polyline list \<Rightarrow> real" where
  "travel [] = 0"
| "travel [p] = 0"
| "travel (p # q # rest) = point_distance (last p) (hd q) + travel (q # rest)"

text \<open>
  \<open>nearest_first e ps\<close>: starting from the end \<open>e\<close>, each polyline of \<open>ps\<close> begins no
  farther from the end before it than either end of any polyline that comes later.
\<close>

fun nearest_first :: "point \<Rightarrow> polyline list \<Rightarrow> bool" where
  "nearest_first e [] = True"
| "nearest_first e (p # rest) =
     ((\<forall>q \<in> set (p # rest).
          point_distance e (hd p) \<le> point_distance e (hd q)
        \<and> point_distance e (hd p) \<le> point_distance e (last q))
      \<and> nearest_first (last p) rest)"

text \<open>Four small closed loops on the X axis, at 0, -3, 2 and 6.\<close>

definition loop_at :: "real \<Rightarrow> polyline" where
  "loop_at x = [(x, 0), (x, 1), (x, 0)]"

definition four_loops :: "polyline list" where
  "four_loops = [loop_at 0, loop_at (-3), loop_at 2, loop_at 6]"

text \<open>The polyline the search selects, turned round when its far end was the nearer.\<close>

definition chosen :: "polyline list \<Rightarrow> best \<Rightarrow> polyline" where
  "chosen xs b = (if best_reverse b then rev (xs ! best_idx b) else xs ! best_idx b)"

text \<open>
  Two facts about the variables of the search: \<open>bound b x\<close> says \<open>min_dist\<close> is at most
  \<open>x\<close>; \<open>attained e xs b\<close> says \<open>min_dist\<close>, once set, is the distance from \<open>e\<close> to the
  start of the polyline selected from \<open>xs\<close>.
\<close>

definition bound :: "best \<Rightarrow> real \<Rightarrow> bool" where
  "bound b x = (\<exists>m. min_dist b = Some m \<and> m \<le> x)"

definition attained :: "point \<Rightarrow> polyline list \<Rightarrow> best \<Rightarrow> bool" where
  "attained cur xs b =
     (\<forall>m. min_dist b = Some m \<longrightarrow>
        best_idx b < length xs \<and> m = point_distance cur (hd (chosen xs b)))"

text \<open>Two strokes on the X axis; the second is drawn towards the first.\<close>

definition two_strokes :: "polyline list" where
  "two_strokes = [[(0, 0), (1, 0)], [(5, 0), (2, 0)]]"

section \<open>Safe motion\<close>





lemmas run_move_to_safe =
  move_to_safe_def planned_move_def fast_move_to_def send_gcode_def ctrl_get_position_def
  get_position_def put_dexarm_def sent_def emitted_def moves_of_def Let_def

text \<open>
  The two moves of the lowering branch keep to the invariant: the lateral travel runs at
  the old Z, the descent keeps the XY.
\<close>

lemma lowering_travels_lifted:
  "z \<le> current_z - 0.5 \<Longrightarrow>
   no_low_lateral pxy current_z current_z z [G0 x y current_z 10000, G0 x y z feedrate]"
  by simp

text \<open>
  Claim C1. In the lifting branch the first move sent should raise Z in place, its XY being
  the position held before the call. The code passes \<open>current_z\<close> as X and as Y of that
  move: with the arm held at \<open>(100, 50, 0)\<close> and the target \<open>(120, 60, 16)\<close>, the first
  move sent goes to \<open>(0, 0, 16)\<close>, not to \<open>(100, 50, 16)\<close>.
\<close>

theorem move_to_safe_lift_leaves_xy:
  "held_xy (sent arm_at_100_50) = Some (100, 50)
   \<and> fst (move_to_safe arm_at_100_50 120 60 16 2000 (Some 0)) = Inr 16
   \<and> emitted arm_at_100_50 (snd (move_to_safe arm_at_100_50 120 60 16 2000 (Some 0)))
       = [G0 0 0 16 10000, G0 120 60 16 10000]"
  by (simp add: arm_at_100_50_def run_move_to_safe)

text \<open>
  Claim C2. No move sent should change XY while the tool is below
  \<open>max prevZ targetZ - 0.5\<close>. The lifting branch breaks this, by the defect of claim C1:
  threaded from the pen-down pose \<open>(100, 50, 0)\<close>, the pen lift to \<open>(100, 50, 16)\<close> first
  sends a move to \<open>(0, 0, 16)\<close>, which leaves the held XY while the tool starts at Z 0,
  below 15.5. So the sequence lift, travel, lower is not free of drag.
\<close>

theorem lift_drags_from_the_surface:
  "emitted arm_at_100_50 (snd (move_to_safe arm_at_100_50 100 50 16 8000 (Some 0)))
     = [G0 0 0 16 10000, G0 100 50 16 10000]
   \<and> \<not> no_low_lateral (Some (100, 50)) 0 0 16 [G0 0 0 16 10000, G0 100 50 16 10000]
   \<and> \<not> safe_run arm_at_100_50 [(100, 50, 16, 8000), (130, 70, 16, 8000), (130, 70, 0, 8000)] 0"
  by (simp add: arm_at_100_50_def run_move_to_safe)

section \<open>Homing\<close>

text \<open>
  Claim C9. When the homing cycle is not acknowledged within \<open>timeout\<close>, \<open>home\<close> should
  signal the homing-timeout error. The reply loop of \<open>send_gcode\<close> returns what it has read
  when the time is up and raises nothing, so \<open>go_home\<close> and \<open>home\<close> return normally: on
  an arm that sends no \<^verbatim>\<open>ok\<close> within 30 seconds, \<open>home\<close> with a timeout of 30 succeeds,
  having written \<^verbatim>\<open>G28\<close> and the position query.
\<close>

theorem home_unacknowledged_returns_success:
  "fst (home unresponsive_arm 30) = Inr ()
   \<and> emitted unresponsive_arm (snd (home unresponsive_arm 30)) = [G28, M114]"
  by (simp add: unresponsive_arm_def home_def go_home_def run_move_to_safe)

section \<open>Safe motion without a known Z\<close>




section \<open>Command generation\<close>

lemmas run_generator =
  convert_to_drawing_commands_def drawing_pen_def fit_to_area_def or_100_def process_path_def
  lift_pen_def to_machine_def transform_point_def is_in_bounds_def move_cmd_def draw_cmd_def
  sample_curve_def num_samples_def Let_def

text \<open>
  Claim C3. The generator should return at most \<open>max_commands\<close> commands, as its
  docstring says of that argument. The limit is tested only before a path is started and
  never inside one: with a limit of 1, the single path \<^verbatim>\<open>M 0,0 L 10,10\<close> yields three
  commands, and nothing is reported as skipped.
\<close>

theorem budget_exceeded_by_one_path:
  "int (length (commands (convert_to_drawing_commands one_line square_area 0 16 8000 8000 1))) = 3
   \<and> \<not> int (length (commands (convert_to_drawing_commands one_line square_area 0 16 8000 8000 1))) \<le> 1
   \<and> path_count (convert_to_drawing_commands one_line square_area 0 16 8000 8000 1) = 1
   \<and> skipped (convert_to_drawing_commands one_line square_area 0 16 8000 8000 1) = None"
  by (simp add: run_generator one_line_def square_area_def)

text \<open>
  Claim C4. The first point of a stroke should produce a Move at \<open>zUp\<close> immediately
  followed by a Draw at the same XY. A parsed path begins with a \<open>Move\<close> segment, whose
  branch emits the Move and clears \<open>first_point\<close> without the Draw: for
  \<^verbatim>\<open>M 0,0 L 10,10\<close> the Move at \<open>(0, 0)\<close> is followed by a Draw at \<open>(10, 10)\<close>, so
  the pen never touches down at the start of the stroke.
\<close>

theorem move_segment_skips_touch_down:
  "commands (convert_to_drawing_commands one_line square_area 0 16 8000 8000 5000)
   = [\<lparr>cmd_kind = move, cmd_x = 0, cmd_y = 0, cmd_z = 16, cmd_feedrate = 8000\<rparr>,
      \<lparr>cmd_kind = draw, cmd_x = 10, cmd_y = 10, cmd_z = 0, cmd_feedrate = 8000\<rparr>,
      \<lparr>cmd_kind = move, cmd_x = 10, cmd_y = 10, cmd_z = 16, cmd_feedrate = 8000\<rparr>]"
  by (simp add: run_generator one_line_def square_area_def)

text \<open>
  Claim C5. Every Draw command should lie inside the drawing area, those sampled from
  curves included. The sampling loop makes no bounds test: a curve that runs to
  \<open>(500, 50)\<close> puts a Draw there, outside the 100 by 100 area.
\<close>

theorem curve_samples_are_not_clipped:
  "\<lparr>cmd_kind = draw, cmd_x = 500, cmd_y = 50, cmd_z = 0, cmd_feedrate = 8000\<rparr>
     \<in> set (commands (convert_to_drawing_commands escaping_curve square_area 0 16 8000 8000 5000))
   \<and> \<not> is_in_bounds 500 50 square_area"
  by (simp add: run_generator escaping_curve_def square_area_def upt_rec)

section \<open>Path ordering\<close>

lemma candidate_idx: "best_idx (candidate d i r b) = best_idx b \<or> best_idx (candidate d i r b) = i"
  by (simp add: candidate_def)

lemma find_nearest_step:
  "p \<noteq> [] \<Longrightarrow> find_nearest cur ((i, p) # es) b
     = find_nearest cur es (candidate (point_distance cur (last p)) i True
          (candidate (point_distance cur (hd p)) i False b))"
  by (simp add: Let_def)

lemma find_nearest_nonempty:
  "find_nearest cur ((i, p) # es) b = Inr b' \<Longrightarrow> p \<noteq> []"
  by (auto split: if_splits)

lemma find_nearest_total:
  "\<forall>e \<in> set es. snd e \<noteq> [] \<Longrightarrow> \<exists>b'. find_nearest cur es b = Inr b'"
proof (induction es arbitrary: b)
  case Nil
  show ?case by simp
next
  case (Cons e es)
  obtain i p where e: "e = (i, p)" by (cases e)
  from Cons.prems e have p: "p \<noteq> []" by simp
  from Cons.prems have "\<forall>e \<in> set es. snd e \<noteq> []" by simp
  from Cons.IH [OF this] show ?case unfolding e find_nearest_step [OF p] by blast
qed

lemma find_nearest_idx:
  "find_nearest cur es b = Inr b' \<Longrightarrow> best_idx b' = best_idx b \<or> best_idx b' \<in> fst ` set es"
proof (induction es arbitrary: b)
  case Nil
  then show ?case by simp
next
  case (Cons e es)
  obtain i p where e: "e = (i, p)" by (cases e)
  from Cons.prems e have p: "p \<noteq> []" by (auto dest: find_nearest_nonempty)
  let ?b1 = "candidate (point_distance cur (hd p)) i False b"
  let ?b2 = "candidate (point_distance cur (last p)) i True ?b1"
  from Cons.prems e have "find_nearest cur es ?b2 = Inr b'"
    by (simp only: find_nearest_step [OF p])
  from Cons.IH [OF this] have "best_idx b' = best_idx ?b2 \<or> best_idx b' \<in> fst ` set es" .
  moreover have "best_idx ?b2 = best_idx b \<or> best_idx ?b2 = i"
    using candidate_idx [of "point_distance cur (last p)" i True ?b1]
      candidate_idx [of "point_distance cur (hd p)" i False b] by auto
  ultimately show ?case using e by auto
qed

lemma enumerate_fst: "fst ` set (enumerate 0 xs) = {0..<length xs}"
proof -
  have "fst ` set (enumerate 0 xs) = set (map fst (enumerate 0 xs))" by (simp only: set_map)
  also have "\<dots> = {0..<length xs}" by (simp only: map_fst_enumerate) simp
  finally show ?thesis .
qed

lemma find_nearest_in_range:
  assumes "find_nearest cur (enumerate 0 (r # rs)) \<lparr>min_dist = None, best_idx = 0, best_reverse = False\<rparr> = Inr b"
  shows "best_idx b < length (r # rs)"
proof -
  from find_nearest_idx [OF assms]
  have "best_idx b = 0 \<or> best_idx b \<in> fst ` set (enumerate 0 (r # rs))" by simp
  then show ?thesis unfolding enumerate_fst by auto
qed

lemma pop_mset:
  assumes "i < length xs"
  shows "mset xs = add_mset (xs ! i) (mset (take i xs @ drop (Suc i) xs))"
proof -
  have "mset xs = mset (take i xs @ xs ! i # drop (Suc i) xs)"
    using id_take_nth_drop [OF assms] by simp
  then show ?thesis by simp
qed

lemma pop_set:
  "set (take i xs @ drop (Suc i) xs) \<subseteq> set xs"
  using set_take_subset [of i xs] set_drop_subset [of "Suc i" xs] by auto

lemma orientations_rev: "orientations (rev p) = orientations p"
  by (auto simp: orientations_def)

lemma enumerate_nonempty:
  assumes "\<forall>p \<in> set xs. p \<noteq> []"
  shows "\<forall>e \<in> set (enumerate 0 xs). snd e \<noteq> []"
proof
  fix e assume "e \<in> set (enumerate 0 xs)"
  then have "fst e < length xs" "xs ! fst e = snd e" by (auto simp: in_set_enumerate_eq)
  then have "snd e \<in> set xs" using nth_mem by metis
  with assms show "snd e \<noteq> []" by blast
qed

lemma greedy_loop_step:
  assumes "find_nearest cur (enumerate 0 (r # rs))
             \<lparr>min_dist = None, best_idx = 0, best_reverse = False\<rparr> = Inr b"
    and "best_idx b < length (r # rs)"
    and "(r # rs) ! best_idx b \<noteq> []"
  shows "greedy_loop ordered (r # rs) cur
         = greedy_loop (ordered @ [chosen (r # rs) b])
             (take (best_idx b) (r # rs) @ drop (Suc (best_idx b)) (r # rs))
             (last (chosen (r # rs) b))"
proof -
  have c: "chosen (r # rs) b \<noteq> []" using assms(3) by (simp add: chosen_def)
  have p: "pop (r # rs) (best_idx b)
      = Inr ((r # rs) ! best_idx b, take (best_idx b) (r # rs) @ drop (Suc (best_idx b)) (r # rs))"
    using assms(2) by (simp only: pop_def if_True)
  show ?thesis
    apply (subst greedy_loop.simps(2))
    apply (simp only: assms(1) p sum.case prod.case Let_def)
    using c apply (simp only: chosen_def if_False)
    done
qed

lemma greedy_loop_permutes:
  "\<forall>p \<in> set remaining. p \<noteq> [] \<Longrightarrow>
   \<exists>tail. greedy_loop ordered remaining cur = Inr (ordered @ tail)
     \<and> length tail = length remaining
     \<and> image_mset orientations (mset tail) = image_mset orientations (mset remaining)"
proof (induction remaining arbitrary: ordered cur rule: length_induct)
  case (1 remaining)
  show ?case
  proof (cases remaining)
    case Nil
    then show ?thesis by simp
  next
    case (Cons r rs)
    from "1.prems" have ne: "\<forall>e \<in> set (enumerate 0 remaining). snd e \<noteq> []"
      by (rule enumerate_nonempty)
    from find_nearest_total [OF ne] obtain b where
      b: "find_nearest cur (enumerate 0 (r # rs))
            \<lparr>min_dist = None, best_idx = 0, best_reverse = False\<rparr> = Inr b"
      unfolding Cons by blast
    have i: "best_idx b < length (r # rs)" by (rule find_nearest_in_range [OF b])
    let ?i = "best_idx b"
    let ?rest = "take ?i (r # rs) @ drop (Suc ?i) (r # rs)"
    let ?c = "chosen (r # rs) b"
    have mem: "(r # rs) ! ?i \<in> set remaining" unfolding Cons using i by (rule nth_mem)
    with "1.prems" have pne: "(r # rs) ! ?i \<noteq> []" by blast
    have step: "greedy_loop ordered remaining cur = greedy_loop (ordered @ [?c]) ?rest (last ?c)"
      unfolding Cons by (rule greedy_loop_step [OF b i pne])
    have len: "length ?rest < length remaining" unfolding Cons using i by simp
    have rne: "\<forall>p \<in> set ?rest. p \<noteq> []"
      using "1.prems" pop_set [of ?i "r # rs"] unfolding Cons by blast
    from "1.IH" len rne obtain tail where
      tail: "greedy_loop (ordered @ [?c]) ?rest (last ?c) = Inr ((ordered @ [?c]) @ tail)"
        "length tail = length ?rest"
        "image_mset orientations (mset tail) = image_mset orientations (mset ?rest)"
      by blast
    have oc: "orientations ?c = orientations ((r # rs) ! ?i)"
      by (simp add: chosen_def orientations_rev)
    have l: "length (?c # tail) = length remaining"
      unfolding Cons using tail(2) i by simp
    have m: "image_mset orientations (mset (?c # tail)) = image_mset orientations (mset remaining)"
      unfolding Cons using tail(3) oc pop_mset [OF i] by simp
    have "greedy_loop ordered remaining cur = Inr (ordered @ (?c # tail))"
      using step tail(1) by simp
    with l m show ?thesis by blast
  qed
qed

lemmas run_optimizer =
  optimize_path_order_def four_loops_def loop_at_def enumerate_eq_zip upt_rec
  point_distance_def below_def candidate_def pop_def Let_def

lemma four_loops_ordered:
  "optimize_path_order four_loops = Inr [loop_at 0, loop_at 2, loop_at 6, loop_at (-3)]"
  by (simp add: run_optimizer)

text \<open>
  Claim C6. For every list of polylines, each with at least one point as a stroke has,
  the optimizer returns a list of the same length in which every input polyline appears
  exactly once, as it was or reversed, and nothing else: the polylines of the output,
  taken up to their direction, are those of the input, with their multiplicities.
\<close>

theorem optimize_path_order_is_reordering:
  assumes "\<forall>p \<in> set polylines. p \<noteq> []"
  shows "\<exists>ordered. optimize_path_order polylines = Inr ordered
     \<and> length ordered = length polylines
     \<and> image_mset orientations (mset ordered) = image_mset orientations (mset polylines)"
proof (cases polylines)
  case Nil
  then show ?thesis by (simp add: optimize_path_order_def)
next
  case (Cons current remaining)
  with assms have c: "current \<noteq> []" and r: "\<forall>p \<in> set remaining. p \<noteq> []" by simp_all
  from greedy_loop_permutes [OF r, of "[current]" "last current"] obtain tail where
    "greedy_loop [current] remaining (last current) = Inr ([current] @ tail)"
    "length tail = length remaining"
    "image_mset orientations (mset tail) = image_mset orientations (mset remaining)"
    by blast
  with c Cons show ?thesis by (simp add: optimize_path_order_def)
qed

theorem optimize_path_order_is_reordering_witness:
  "optimize_path_order four_loops = Inr [loop_at 0, loop_at 2, loop_at 6, loop_at (-3)]
   \<and> length [loop_at 0, loop_at 2, loop_at 6, loop_at (-3)] = length four_loops
   \<and> image_mset orientations (mset [loop_at 0, loop_at 2, loop_at 6, loop_at (-3)])
       = image_mset orientations (mset four_loops)"
proof -
  have h: "\<forall>p \<in> set four_loops. p \<noteq> []" by (simp add: four_loops_def loop_at_def)
  from optimize_path_order_is_reordering [OF h] four_loops_ordered h show ?thesis by auto
qed

section \<open>Travel of the greedy ordering\<close>

lemma candidate_bound_new: "bound (candidate d i r b) d"
  by (cases "min_dist b") (auto simp: candidate_def bound_def below_def)

lemma candidate_bound_keep: "bound b x \<Longrightarrow> bound (candidate d i r b) x"
  by (auto simp: candidate_def bound_def below_def)

lemma find_nearest_bound_keep:
  "find_nearest cur es b = Inr b' \<Longrightarrow> bound b x \<Longrightarrow> bound b' x"
proof (induction es arbitrary: b)
  case Nil
  then show ?case by simp
next
  case (Cons e es)
  obtain i p where e: "e = (i, p)" by (cases e)
  from Cons.prems(1) e have p: "p \<noteq> []" by (auto dest: find_nearest_nonempty)
  let ?b2 = "candidate (point_distance cur (last p)) i True
               (candidate (point_distance cur (hd p)) i False b)"
  from Cons.prems(1) e have f: "find_nearest cur es ?b2 = Inr b'"
    by (simp only: find_nearest_step [OF p])
  have "bound ?b2 x" using Cons.prems(2) by (intro candidate_bound_keep)
  from Cons.IH [OF f this] show ?case .
qed

lemma find_nearest_bound_all:
  "find_nearest cur es b = Inr b' \<Longrightarrow> (i, p) \<in> set es \<Longrightarrow>
   bound b' (point_distance cur (hd p)) \<and> bound b' (point_distance cur (last p))"
proof (induction es arbitrary: b)
  case Nil
  then show ?case by simp
next
  case (Cons e es)
  obtain j q where e: "e = (j, q)" by (cases e)
  from Cons.prems(1) e have q: "q \<noteq> []" by (auto dest: find_nearest_nonempty)
  let ?b1 = "candidate (point_distance cur (hd q)) j False b"
  let ?b2 = "candidate (point_distance cur (last q)) j True ?b1"
  from Cons.prems(1) e have f: "find_nearest cur es ?b2 = Inr b'"
    by (simp only: find_nearest_step [OF q])
  show ?case
  proof (cases "(i, p) = (j, q)")
    case True
    have "bound ?b2 (point_distance cur (hd q))"
      by (intro candidate_bound_keep candidate_bound_new)
    moreover have "bound ?b2 (point_distance cur (last q))" by (rule candidate_bound_new)
    ultimately show ?thesis using True find_nearest_bound_keep [OF f] by blast
  next
    case False
    with Cons.prems(2) e have "(i, p) \<in> set es" by auto
    from Cons.IH [OF f this] show ?thesis .
  qed
qed

lemma candidate_attained_start:
  assumes "attained cur xs b" "i < length xs" "xs ! i \<noteq> []"
  shows "attained cur xs (candidate (point_distance cur (hd (xs ! i))) i False b)"
  using assms by (auto simp: attained_def candidate_def chosen_def)

lemma candidate_attained_end:
  assumes "attained cur xs b" "i < length xs" "xs ! i \<noteq> []"
  shows "attained cur xs (candidate (point_distance cur (last (xs ! i))) i True b)"
  using assms by (auto simp: attained_def candidate_def chosen_def hd_rev)

lemma find_nearest_attained:
  "find_nearest cur es b = Inr b' \<Longrightarrow>
   \<forall>e \<in> set es. fst e < length xs \<and> xs ! fst e = snd e \<Longrightarrow>
   attained cur xs b \<Longrightarrow> attained cur xs b'"
proof (induction es arbitrary: b)
  case Nil
  then show ?case by simp
next
  case (Cons e es)
  obtain i p where e: "e = (i, p)" by (cases e)
  from Cons.prems(1) e have p: "p \<noteq> []" by (auto dest: find_nearest_nonempty)
  from Cons.prems(2) e have i: "i < length xs" and xi: "xs ! i = p" by simp_all
  let ?b1 = "candidate (point_distance cur (hd p)) i False b"
  let ?b2 = "candidate (point_distance cur (last p)) i True ?b1"
  from Cons.prems(1) e have f: "find_nearest cur es ?b2 = Inr b'"
    by (simp only: find_nearest_step [OF p])
  have "attained cur xs ?b1"
    using candidate_attained_start [OF Cons.prems(3) i] p xi by simp
  then have "attained cur xs ?b2"
    using candidate_attained_end [OF _ i] p xi by simp
  moreover from Cons.prems(2) have "\<forall>e \<in> set es. fst e < length xs \<and> xs ! fst e = snd e"
    by simp
  ultimately show ?case using Cons.IH [OF f] by blast
qed

lemma find_nearest_minimal:
  assumes f: "find_nearest cur (enumerate 0 xs)
                \<lparr>min_dist = None, best_idx = 0, best_reverse = False\<rparr> = Inr b"
    and q: "q \<in> set xs"
  shows "point_distance cur (hd (chosen xs b)) \<le> point_distance cur (hd q)
       \<and> point_distance cur (hd (chosen xs b)) \<le> point_distance cur (last q)"
proof -
  from q obtain i where i: "i < length xs" "xs ! i = q" by (auto simp: in_set_conv_nth)
  then have "(i, q) \<in> set (enumerate 0 xs)" by (simp add: in_set_enumerate_eq)
  from find_nearest_bound_all [OF f this]
  obtain m where m: "min_dist b = Some m" "m \<le> point_distance cur (hd q)"
      "m \<le> point_distance cur (last q)"
    by (auto simp: bound_def)
  have "attained cur xs \<lparr>min_dist = None, best_idx = 0, best_reverse = False\<rparr>"
    by (simp add: attained_def)
  moreover have "\<forall>e \<in> set (enumerate 0 xs). fst e < length xs \<and> xs ! fst e = snd e"
    by (auto simp: in_set_enumerate_eq)
  ultimately have "attained cur xs b" using find_nearest_attained [OF f] by blast
  with m(1) have "m = point_distance cur (hd (chosen xs b))" by (simp add: attained_def)
  with m show ?thesis by simp
qed

lemma orientation_ends:
  assumes "q \<noteq> []" "q' \<in> orientations q"
  shows "(hd q' = hd q \<and> last q' = last q) \<or> (hd q' = last q \<and> last q' = hd q)"
  using assms by (auto simp: orientations_def hd_rev last_rev)

lemma same_orientations_member:
  assumes "image_mset orientations (mset tail) = image_mset orientations (mset rest)"
    and "q' \<in> set tail"
  shows "\<exists>q \<in> set rest. q' \<in> orientations q"
proof -
  from assms(2) have "orientations q' \<in># image_mset orientations (mset tail)" by simp
  with assms(1) have "orientations q' \<in># image_mset orientations (mset rest)" by simp
  then obtain q where "q \<in> set rest" "orientations q' = orientations q" by auto
  moreover have "q' \<in> orientations q'" by (simp add: orientations_def)
  ultimately show ?thesis by auto
qed

lemma chosen_orientation:
  "chosen xs b \<in> orientations (xs ! best_idx b)"
  by (simp add: chosen_def orientations_def)

lemma greedy_loop_nearest_first:
  "\<forall>p \<in> set remaining. p \<noteq> [] \<Longrightarrow>
   greedy_loop ordered remaining cur = Inr (ordered @ tail) \<Longrightarrow> nearest_first cur tail"
proof (induction remaining arbitrary: ordered cur tail rule: length_induct)
  case (1 remaining)
  show ?case
  proof (cases remaining)
    case Nil
    with "1.prems"(2) show ?thesis by simp
  next
    case (Cons r rs)
    from "1.prems"(1) have ne: "\<forall>e \<in> set (enumerate 0 remaining). snd e \<noteq> []"
      by (rule enumerate_nonempty)
    from find_nearest_total [OF ne] obtain b where
      b: "find_nearest cur (enumerate 0 (r # rs))
            \<lparr>min_dist = None, best_idx = 0, best_reverse = False\<rparr> = Inr b"
      unfolding Cons by blast
    have i: "best_idx b < length (r # rs)" by (rule find_nearest_in_range [OF b])
    let ?i = "best_idx b"
    let ?rest = "take ?i (r # rs) @ drop (Suc ?i) (r # rs)"
    let ?c = "chosen (r # rs) b"
    have mem: "(r # rs) ! ?i \<in> set remaining" unfolding Cons using i by (rule nth_mem)
    with "1.prems"(1) have pne: "(r # rs) ! ?i \<noteq> []" by blast
    have step: "greedy_loop ordered remaining cur = greedy_loop (ordered @ [?c]) ?rest (last ?c)"
      unfolding Cons by (rule greedy_loop_step [OF b i pne])
    have len: "length ?rest < length remaining" unfolding Cons using i by simp
    have sub: "set ?rest \<subseteq> set remaining" unfolding Cons by (rule pop_set)
    have rne: "\<forall>p \<in> set ?rest. p \<noteq> []" using "1.prems"(1) sub by blast
    from greedy_loop_permutes [OF rne, of "ordered @ [?c]" "last ?c"] obtain tail' where
      tail': "greedy_loop (ordered @ [?c]) ?rest (last ?c) = Inr ((ordered @ [?c]) @ tail')"
        "image_mset orientations (mset tail') = image_mset orientations (mset ?rest)"
      by blast
    from step tail'(1) "1.prems"(2) have t: "tail = ?c # tail'" by simp
    have nf: "nearest_first (last ?c) tail'"
      using "1.IH" len rne tail'(1) by blast
    have near: "point_distance cur (hd ?c) \<le> point_distance cur (hd q')
              \<and> point_distance cur (hd ?c) \<le> point_distance cur (last q')"
      if q': "q' \<in> set (?c # tail')" for q'
    proof -
      have "\<exists>q \<in> set remaining. q' \<in> orientations q"
      proof (cases "q' = ?c")
        case True
        with mem chosen_orientation [of "r # rs" b] show ?thesis by blast
      next
        case False
        with q' have "q' \<in> set tail'" by simp
        from same_orientations_member [OF tail'(2) this] sub show ?thesis by blast
      qed
      then obtain q where q: "q \<in> set remaining" "q' \<in> orientations q" by blast
      from q(1) "1.prems"(1) have "q \<noteq> []" by blast
      from orientation_ends [OF this q(2)]
        find_nearest_minimal [OF b, of q] q(1)
      show ?thesis unfolding Cons by auto
    qed
    show ?thesis unfolding t using near nf by simp
  qed
qed

lemma sqrt_squares:
  "sqrt 4 = 2" "sqrt 9 = 3" "sqrt 16 = 4" "sqrt 25 = 5" "sqrt 81 = 9"
  using real_sqrt_abs [of 2] real_sqrt_abs [of 3] real_sqrt_abs [of 4] real_sqrt_abs [of 5]
    real_sqrt_abs [of 9]
  by simp_all

lemma two_strokes_ordered:
  "optimize_path_order two_strokes = Inr [[(0, 0), (1, 0)], [(2, 0), (5, 0)]]"
  by (simp add: run_optimizer two_strokes_def)

text \<open>
  Claim C7, as stated: the total travel of the greedy ordering is at most that of the
  input order. It is not: for four loops at 0, -3, 2 and 6 on the X axis the input order
  travels 12, and the greedy ordering, which goes to 2, then 6, then back to -3, travels 15.
\<close>

theorem greedy_order_travels_farther:
  "optimize_path_order four_loops = Inr [loop_at 0, loop_at 2, loop_at 6, loop_at (-3)]
   \<and> travel four_loops = 12
   \<and> travel [loop_at 0, loop_at 2, loop_at 6, loop_at (-3)] = 15
   \<and> \<not> travel [loop_at 0, loop_at 2, loop_at 6, loop_at (-3)] \<le> travel four_loops"
proof -
  have t: "travel four_loops = 12" "travel [loop_at 0, loop_at 2, loop_at 6, loop_at (-3)] = 15"
    by (simp_all add: four_loops_def loop_at_def point_distance_def sqrt_squares)
  show ?thesis using four_loops_ordered t by simp
qed

text \<open>
  Claim C7, amended. In the greedy ordering every hop is the shortest one available: the
  start of each polyline is no farther from the end of the polyline before it than either
  end of any polyline placed later. For an input of at most two polylines the total travel
  is at most that of the input order.
\<close>

theorem greedy_order_is_nearest_first:
  assumes "\<forall>p \<in> set polylines. p \<noteq> []"
    and "optimize_path_order polylines = Inr ordered"
  shows "(case ordered of [] \<Rightarrow> True | p # rest \<Rightarrow> nearest_first (last p) rest)
       \<and> (length polylines \<le> 2 \<longrightarrow> travel ordered \<le> travel polylines)"
proof (cases polylines)
  case Nil
  with assms(2) show ?thesis by (simp add: optimize_path_order_def)
next
  case (Cons current remaining)
  with assms(1) have c: "current \<noteq> []" and r: "\<forall>p \<in> set remaining. p \<noteq> []" by simp_all
  from greedy_loop_permutes [OF r, of "[current]" "last current"] obtain tail where
    tail: "greedy_loop [current] remaining (last current) = Inr ([current] @ tail)"
      "length tail = length remaining"
      "image_mset orientations (mset tail) = image_mset orientations (mset remaining)"
    by blast
  from assms(2) c Cons tail(1) have o: "ordered = current # tail"
    by (simp add: optimize_path_order_def)
  have nf: "nearest_first (last current) tail"
    by (rule greedy_loop_nearest_first [OF r tail(1)])
  have two: "travel ordered \<le> travel polylines" if "length polylines \<le> 2"
  proof (cases remaining)
    case Nil
    with tail(2) o Cons show ?thesis by simp
  next
    case (Cons q rest)
    with that \<open>polylines = current # remaining\<close> have rest: "rest = []" by simp
    with Cons tail(2) obtain q' where t: "tail = [q']" by (cases tail) auto
    from same_orientations_member [OF tail(3), of q'] t Cons rest
    have "q' \<in> orientations q" by simp
    moreover from r Cons have "q \<noteq> []" by simp
    ultimately have e: "(hd q' = hd q \<and> last q' = last q) \<or> (hd q' = last q \<and> last q' = hd q)"
      by (rule orientation_ends [rotated])
    from nf t have "point_distance (last current) (hd q') \<le> point_distance (last current) (last q')"
      by simp
    with e have "point_distance (last current) (hd q') \<le> point_distance (last current) (hd q)"
      by auto
    with o t Cons rest \<open>polylines = current # remaining\<close> show ?thesis by simp
  qed
  show ?thesis using o nf two by simp
qed

theorem greedy_order_is_nearest_first_witness:
  "optimize_path_order two_strokes = Inr [[(0, 0), (1, 0)], [(2, 0), (5, 0)]]
   \<and> length two_strokes \<le> 2
   \<and> point_distance (1, 0) (2, 0) \<le> point_distance (1, 0) (5, 0)
   \<and> travel [[(0, 0), (1, 0)], [(2, 0), (5, 0)]] \<le> travel two_strokes"
proof -
  have h: "\<forall>p \<in> set two_strokes. p \<noteq> []" by (simp add: two_strokes_def)
  from greedy_order_is_nearest_first [OF h two_strokes_ordered] two_strokes_ordered
  show ?thesis by (simp add: two_strokes_def)
qed

end
